theory Spec2Isabelle
  imports Main "HOL-Library.Word"
begin

unbundle bit_operations_syntax

section \<open>Failure modes\<close>

text \<open>
  The header has one exception (\<open>std::logic_error\<close>, "Illegal access of closed
  instance") and three ways of leaving defined behaviour: the \<open>assert(!empty())\<close> of
  \<open>Chunk::next\<close> (with \<open>NDEBUG\<close> the read one past the array), a read of
  \<open>m_values\<close> beyond its end, and the dereference of the end iterator in
  \<open>nextProducer\<close>.  Each is a value of \<open>error\<close>.
\<close>

datatype error = ClosedInstance | AssertFailed | OutOfBounds | InvalidIterator

text \<open>
  A call that can block on the condition variable has three outcomes: it is still
  waiting (its predicate is false), it threw, or it returned.
\<close>

datatype 'r status = Waiting | Threw error | Returned 'r

section \<open>Chunk\<close>

text \<open>
  \<open>std::array<result_type, CHUNK_SIZE> m_values\<close> is a list whose length is
  \<open>CHUNK_SIZE\<close>; \<open>m_values.size()\<close> is its length.  \<open>size_t m_nextIndex\<close> is a
  \<open>nat\<close>: it is only compared, reset to 0 and incremented below the array size.
\<close>

record 'v Chunk =
  m_nextIndex :: nat
  m_values :: "'v list"

text \<open>\<open>Chunk()\<close>: cursor at \<open>CHUNK_SIZE\<close>, storage value-initialised (zeros).\<close>

definition Chunk_new :: "nat \<Rightarrow> ('v::zero) Chunk" where
  "Chunk_new CHUNK_SIZE = \<lparr>m_nextIndex = CHUNK_SIZE, m_values = replicate CHUNK_SIZE 0\<rparr>"

definition Chunk_empty :: "'v Chunk \<Rightarrow> bool" where
  "Chunk_empty c \<longleftrightarrow> m_nextIndex c = length (m_values c)"

definition Chunk_full :: "'v Chunk \<Rightarrow> bool" where
  "Chunk_full c \<longleftrightarrow> m_nextIndex c = 0"

text \<open>
  \<open>next()\<close>: \<open>assert(!empty()); return m_values[m_nextIndex++];\<close>.  A cursor beyond
  the array passes the assertion and reads out of range.
\<close>

definition Chunk_next :: "'v Chunk \<Rightarrow> error + ('v \<times> 'v Chunk)" where
  "Chunk_next c =
     (if Chunk_empty c then Inl AssertFailed
      else if m_nextIndex c < length (m_values c)
        then Inr (m_values c ! m_nextIndex c, c\<lparr>m_nextIndex := m_nextIndex c + 1\<rparr>)
      else Inl OutOfBounds)"

text \<open>
  \<open>std::ranges::generate(m_values, generator)\<close> assigns \<open>generator()\<close> to every
  element, first to last.  The generator is a closure over mutable state \<open>'s\<close>: one
  call returns a value and the state after the call.
\<close>

fun generate_range :: "('s \<Rightarrow> 'v \<times> 's) \<Rightarrow> 'v list \<Rightarrow> 's \<Rightarrow> 'v list \<times> 's" where
  "generate_range generator [] s = ([], s)"
| "generate_range generator (x # xs) s =
     (let (v, s1) = generator s;
          (vs, s2) = generate_range generator xs s1
      in (v # vs, s2))"

definition Chunk_fill :: "('s \<Rightarrow> 'v \<times> 's) \<Rightarrow> 'v Chunk \<Rightarrow> 's \<Rightarrow> 'v Chunk \<times> 's" where
  "Chunk_fill generator c s =
     (let (vs, s1) = generate_range generator (m_values c) s
      in (c\<lparr>m_values := vs, m_nextIndex := 0\<rparr>, s1))"

text \<open>\<open>n\<close> consecutive \<open>next()\<close> calls, stopping at the first failure.\<close>

fun next_times :: "nat \<Rightarrow> 'v Chunk \<Rightarrow> error + ('v list \<times> 'v Chunk)" where
  "next_times 0 c = Inr ([], c)"
| "next_times (Suc n) c =
     (case Chunk_next c of
        Inl e \<Rightarrow> Inl e
      | Inr (v, c1) \<Rightarrow>
          (case next_times n c1 of
             Inl e \<Rightarrow> Inl e
           | Inr (vs, c2) \<Rightarrow> Inr (v # vs, c2)))"

text \<open>
  The reference for "calling the generator \<open>n\<close> times": the values it returns, in call
  order, and the state it is left in.
\<close>

fun calls :: "('s \<Rightarrow> 'v \<times> 's) \<Rightarrow> nat \<Rightarrow> 's \<Rightarrow> 'v list" where
  "calls generator 0 s = []"
| "calls generator (Suc n) s = (let (v, s1) = generator s in v # calls generator n s1)"

fun after_calls :: "('s \<Rightarrow> 'v \<times> 's) \<Rightarrow> nat \<Rightarrow> 's \<Rightarrow> 's" where
  "after_calls generator 0 s = s"
| "after_calls generator (Suc n) s = after_calls generator n (snd (generator s))"

text \<open>The value of call number \<open>j\<close> (counting from 0).\<close>

definition nth_call :: "('s \<Rightarrow> 'v \<times> 's) \<Rightarrow> 's \<Rightarrow> nat \<Rightarrow> 'v" where
  "nth_call generator s j = fst (generator (after_calls generator j s))"

section \<open>Engine and distribution\<close>

text \<open>
  \<open>EngineT\<close> and \<open>DistributionT\<close> are template parameters, opaque to the cache.  What
  the cache uses of them is taken as a parameter: the engine's constructor from a seed,
  the engine's call operator (a value of \<open>seed_type = EngineT::result_type\<close> and the
  advanced engine) and the distribution's call operator on an engine (a value, and the
  states of distribution and engine after the call: both are passed by reference).
\<close>

record ('s, 'v, 'd, 'e) rng =
  engine_seed :: "'s \<Rightarrow> 'e"
  engine_call :: "'e \<Rightarrow> 's \<times> 'e"
  dist_call :: "'d \<Rightarrow> 'e \<Rightarrow> 'v \<times> 'd \<times> 'e"

section \<open>Producer\<close>

text \<open>
  The fields of \<open>Producer\<close> that hold data.  \<open>m_mutex\<close> and \<open>m_conditionVariable\<close>
  appear as the atomicity of the functions below (each is the body of one critical
  section, guarded by its wait predicate); \<open>m_thread\<close> appears as the worker step of
  the system and as the \<open>ThreadSpawned\<close> event of construction.
\<close>

record ('v, 'd, 'e) Producer =
  m_shutdown :: bool
  m_chunk :: "'v Chunk"
  m_distribution :: 'd
  m_engine :: 'e

definition Producer_new ::
  "('s, 'v::zero, 'd, 'e) rng \<Rightarrow> nat \<Rightarrow> 'd \<Rightarrow> 's \<Rightarrow> ('v, 'd, 'e) Producer" where
  "Producer_new rng CHUNK_SIZE distribution seed =
     \<lparr>m_shutdown = False,
      m_chunk = Chunk_new CHUNK_SIZE,
      m_distribution = distribution,
      m_engine = engine_seed rng seed\<rparr>"

definition swapWaitCondition :: "('v, 'd, 'e) Producer \<Rightarrow> bool" where
  "swapWaitCondition p \<longleftrightarrow> m_shutdown p \<or> Chunk_full (m_chunk p)"

definition fillWaitCondition :: "('v, 'd, 'e) Producer \<Rightarrow> bool" where
  "fillWaitCondition p \<longleftrightarrow> m_shutdown p \<or> Chunk_empty (m_chunk p)"

text \<open>
  \<open>swapChunk(otherChunk)\<close>, as status, Producer after, caller's chunk after.  While the
  wait predicate is false the caller is blocked and nothing has changed.
\<close>

definition swapChunk ::
  "('v, 'd, 'e) Producer \<Rightarrow> 'v Chunk \<Rightarrow> unit status \<times> ('v, 'd, 'e) Producer \<times> 'v Chunk" where
  "swapChunk p otherChunk =
     (if \<not> swapWaitCondition p then (Waiting, p, otherChunk)
      else if m_shutdown p then (Threw ClosedInstance, p, otherChunk)
      else (Returned (), p\<lparr>m_chunk := otherChunk\<rparr>, m_chunk p))"

text \<open>\<open>Producer::generate\<close>: \<open>return m_distribution(m_engine);\<close>\<close>

definition Producer_generate ::
  "('s, 'v, 'd, 'e) rng \<Rightarrow> ('v, 'd, 'e) Producer \<Rightarrow> 'v \<times> ('v, 'd, 'e) Producer" where
  "Producer_generate rng p =
     (let (v, d, e) = dist_call rng (m_distribution p) (m_engine p)
      in (v, p\<lparr>m_distribution := d, m_engine := e\<rparr>))"

text \<open>
  One turn of the \<open>while (true)\<close> loop of \<open>run()\<close>: blocked while the wait predicate is
  false; \<open>Threw\<close> never happens; \<open>Returned False\<close> is the \<open>return\<close> on shutdown (the
  thread ends), \<open>Returned True\<close> a completed fill (the loop goes on).  The closure given
  to \<open>fill\<close> captures \<open>this\<close>, so its state is the Producer; the filled chunk is the
  Producer's own.
\<close>

definition run_iteration ::
  "('s, 'v, 'd, 'e) rng \<Rightarrow> ('v, 'd, 'e) Producer \<Rightarrow> bool status \<times> ('v, 'd, 'e) Producer" where
  "run_iteration rng p =
     (if \<not> fillWaitCondition p then (Waiting, p)
      else if m_shutdown p then (Returned False, p)
      else (let (c, p1) = Chunk_fill (Producer_generate rng) (m_chunk p) p
            in (Returned True, p1\<lparr>m_chunk := c\<rparr>)))"

text \<open>\<open>stop()\<close> up to the join: the flag is set under the lock.\<close>

definition stop :: "('v, 'd, 'e) Producer \<Rightarrow> ('v, 'd, 'e) Producer" where
  "stop p = p\<lparr>m_shutdown := True\<rparr>"

text \<open>
  \<open>Producer::create\<close>.  The lambda given to \<open>std::ranges::generate\<close> draws a child seed
  from the root engine and constructs a Producer from it; the constructor's last member
  initialiser starts the thread.  Both effects are logged, in program order, with the
  slot index and the seed.
\<close>

datatype 's event = SeedDrawn nat 's | ThreadSpawned nat 's

fun create_loop ::
  "('s, 'v::zero, 'd, 'e) rng \<Rightarrow> nat \<Rightarrow> 'd \<Rightarrow> 'e \<Rightarrow> nat \<Rightarrow> nat
     \<Rightarrow> ('v, 'd, 'e) Producer list \<times> 's event list" where
  "create_loop rng CHUNK_SIZE distribution rootEngine i 0 = ([], [])"
| "create_loop rng CHUNK_SIZE distribution rootEngine i (Suc n) =
     (let (childSeed, rootEngine1) = engine_call rng rootEngine;
          p = Producer_new rng CHUNK_SIZE distribution childSeed;
          (ps, evs) = create_loop rng CHUNK_SIZE distribution rootEngine1 (Suc i) n
      in (p # ps, SeedDrawn i childSeed # ThreadSpawned i childSeed # evs))"

definition create ::
  "('s, 'v::zero, 'd, 'e) rng \<Rightarrow> nat \<Rightarrow> 'd \<Rightarrow> 's \<Rightarrow> nat
     \<Rightarrow> ('v, 'd, 'e) Producer list \<times> 's event list" where
  "create rng CHUNK_SIZE distribution seed count =
     create_loop rng CHUNK_SIZE distribution (engine_seed rng seed) 0 count"

text \<open>
  "All sub-seeds are derived before any thread is spawned": the log is its draws
  followed by its spawns.
\<close>

fun is_draw :: "'s event \<Rightarrow> bool" where
  "is_draw (SeedDrawn i s) = True"
| "is_draw (ThreadSpawned i s) = False"

definition seeds_before_threads :: "'s event list \<Rightarrow> bool" where
  "seeds_before_threads evs \<longleftrightarrow>
     evs = filter is_draw evs @ filter (\<lambda>e. \<not> is_draw e) evs"

text \<open>The \<open>i\<close>-th sequential draw (from 0) of a root engine built from \<open>seed\<close>.\<close>

definition sub_seed :: "('s, 'v, 'd, 'e) rng \<Rightarrow> 's \<Rightarrow> nat \<Rightarrow> 's" where
  "sub_seed rng seed i = nth_call (engine_call rng) (engine_seed rng seed) i"

section \<open>Seed from the entropy source\<close>

text \<open>
  \<open>randomSeed()\<close>.  \<open>seed_type\<close> is \<open>'a word\<close>, \<open>std::random_device::result_type\<close> is
  \<open>'b word\<close> (both unsigned, as the static assertions demand); \<open>sizeof\<close> counts bytes of
  8 bits.  The device is the sequence of its draws.  \<open>seed << deviceSize\<close> is
  \<open>push_bit\<close>, truncated to the width of \<open>seed_type\<close> by the assignment.  The loop runs
  \<open>iterations\<close> times; \<open>i\<close> is its counter, the last argument but one the number of
  turns left.
\<close>

fun randomSeed_loop ::
  "nat \<Rightarrow> (nat \<Rightarrow> 'b::len word) \<Rightarrow> nat \<Rightarrow> nat \<Rightarrow> 'a::len word \<Rightarrow> 'a word" where
  "randomSeed_loop deviceSize device i 0 seed = seed"
| "randomSeed_loop deviceSize device i (Suc n) seed =
     randomSeed_loop deviceSize device (Suc i) n
       (push_bit deviceSize seed OR ucast (device (Suc i)))"

definition randomSeed :: "(nat \<Rightarrow> 'b::len word) \<Rightarrow> 'a::len word" where
  "randomSeed device =
     (let seedSize = LENGTH('a) div 8;
          deviceSize = LENGTH('b) div 8;
          iterations = (seedSize - 1) div deviceSize
      in randomSeed_loop deviceSize device 0 iterations (ucast (device 0)))"

text \<open>
  The seed of the baseline in \<open>performance_test.cpp\<close>:
  \<open>static_cast<uint64_t>(device()) << 32 | static_cast<uint64_t>(device())\<close>.
\<close>

definition baseline_seed :: "(nat \<Rightarrow> 32 word) \<Rightarrow> 64 word" where
  "baseline_seed device = push_bit 32 (ucast (device 0)) OR ucast (device 1)"

section \<open>RngCache\<close>

text \<open>
  \<open>m_nextProducer\<close> is an iterator into \<open>m_producers\<close>: an index, with \<open>end()\<close> the
  length of the vector.
\<close>

record ('v, 'd, 'e) RngCache =
  m_activeChunk :: "'v Chunk"
  m_producers :: "('v, 'd, 'e) Producer list"
  m_nextProducer :: nat

text \<open>The private constructor.\<close>

definition RngCache_new ::
  "('s, 'v::zero, 'd, 'e) rng \<Rightarrow> nat \<Rightarrow> 'd \<Rightarrow> 's \<Rightarrow> nat \<Rightarrow> ('v, 'd, 'e) RngCache" where
  "RngCache_new rng CHUNK_SIZE distribution seed threadCount =
     \<lparr>m_activeChunk = Chunk_new CHUNK_SIZE,
      m_producers = fst (create rng CHUNK_SIZE distribution seed threadCount),
      m_nextProducer = 0\<rparr>"

text \<open>
  The public constructor: \<open>seed ? *seed : randomSeed()\<close> and
  \<open>threadCount ? *threadCount : std::thread::hardware_concurrency()\<close>.  The entropy
  device and the result of the hardware query are inputs.
\<close>

definition RngCache_ctor ::
  "('a::len word, 'v::zero, 'd, 'e) rng \<Rightarrow> nat \<Rightarrow> (nat \<Rightarrow> 'b::len word) \<Rightarrow> nat
     \<Rightarrow> 'd \<Rightarrow> 'a word option \<Rightarrow> nat option \<Rightarrow> ('v, 'd, 'e) RngCache" where
  "RngCache_ctor rng CHUNK_SIZE device hardware_concurrency distribution seed threadCount =
     RngCache_new rng CHUNK_SIZE distribution
       (case seed of Some s \<Rightarrow> s | None \<Rightarrow> randomSeed device)
       (case threadCount of Some n \<Rightarrow> n | None \<Rightarrow> hardware_concurrency)"

text \<open>
  \<open>nextProducer()\<close>: the index of the Producer under the iterator, and the cache with
  the iterator advanced and wrapped.  Dereferencing \<open>end()\<close> is undefined.
\<close>

definition nextProducer ::
  "('v, 'd, 'e) RngCache \<Rightarrow> error + (nat \<times> ('v, 'd, 'e) RngCache)" where
  "nextProducer c =
     (let i = m_nextProducer c in
      if i < length (m_producers c)
      then Inr (i, c\<lparr>m_nextProducer :=
                      (if i + 1 = length (m_producers c) then 0 else i + 1)\<rparr>)
      else Inl InvalidIterator)"

text \<open>\<open>return m_activeChunk->next();\<close>\<close>

definition pop_active :: "('v, 'd, 'e) RngCache \<Rightarrow> 'v status \<times> ('v, 'd, 'e) RngCache" where
  "pop_active c =
     (case Chunk_next (m_activeChunk c) of
        Inl e \<Rightarrow> (Threw e, c)
      | Inr (v, a) \<Rightarrow> (Returned v, c\<lparr>m_activeChunk := a\<rparr>))"

text \<open>
  \<open>RngCache::generate\<close>.  A call blocked inside \<open>swapChunk\<close> has so far changed only
  the consumer's own iterator; it is reported as \<open>Waiting\<close> with the cache as it was
  before the call, and the whole call is taken again once the Producer's chunk is full.
\<close>

definition RngCache_generate ::
  "('v, 'd, 'e) RngCache \<Rightarrow> 'v status \<times> ('v, 'd, 'e) RngCache" where
  "RngCache_generate c =
     (if Chunk_empty (m_activeChunk c) then
        (case nextProducer c of
           Inl e \<Rightarrow> (Threw e, c)
         | Inr (i, c1) \<Rightarrow>
             (case swapChunk (m_producers c1 ! i) (m_activeChunk c1) of
                (Waiting, p, a) \<Rightarrow> (Waiting, c)
              | (Threw e, p, a) \<Rightarrow> (Threw e, c1)
              | (Returned u, p, a) \<Rightarrow>
                  pop_active (c1\<lparr>m_producers := (m_producers c1)[i := p],
                                 m_activeChunk := a\<rparr>)))
      else pop_active c)"

section \<open>The running system\<close>

text \<open>
  The consumer thread and the worker threads interleave.  Every access to a Producer
  is inside its mutex, so a worker's fill and the consumer's hand-off are atomic steps;
  the active chunk belongs to the consumer alone.  \<open>run rng c0 c out\<close>: from the
  constructed cache \<open>c0\<close>, some interleaving of completed fills and completed
  \<open>generate()\<close> calls leads to the cache \<open>c\<close>, the calls having returned \<open>out\<close> in this
  order.  An entry of \<open>out\<close> is the returned value and the index of the Producer that
  handed over the chunk it was read from: the Producer under the iterator when the call
  starts on an exhausted chunk, the same as for the previous call otherwise.
\<close>

definition source :: "('v, 'd, 'e) RngCache \<Rightarrow> (nat \<times> 'v) list \<Rightarrow> nat" where
  "source c out =
     (if Chunk_empty (m_activeChunk c) then m_nextProducer c
      else (case out of [] \<Rightarrow> 0 | x # xs \<Rightarrow> fst (last out)))"

inductive run ::
  "('s, 'v, 'd, 'e) rng \<Rightarrow> ('v, 'd, 'e) RngCache \<Rightarrow> ('v, 'd, 'e) RngCache
     \<Rightarrow> (nat \<times> 'v) list \<Rightarrow> bool"
  for rng :: "('s, 'v, 'd, 'e) rng" and c0 :: "('v, 'd, 'e) RngCache" where
  constructed: "run rng c0 c0 []"
| worker: "run rng c0 c out \<Longrightarrow> i < length (m_producers c) \<Longrightarrow>
           run_iteration rng (m_producers c ! i) = (Returned True, p) \<Longrightarrow>
           run rng c0 (c\<lparr>m_producers := (m_producers c)[i := p]\<rparr>) out"
| consumer: "run rng c0 c out \<Longrightarrow> RngCache_generate c = (Returned v, c1) \<Longrightarrow>
           run rng c0 c1 (out @ [(source c out, v)])"

text \<open>A schedule, and its execution: \<open>None\<close> when a scheduled step cannot complete.\<close>

datatype action = Fill nat | Call

fun exec ::
  "('s, 'v, 'd, 'e) rng \<Rightarrow> action list \<Rightarrow> ('v, 'd, 'e) RngCache \<times> (nat \<times> 'v) list
     \<Rightarrow> (('v, 'd, 'e) RngCache \<times> (nat \<times> 'v) list) option" where
  "exec rng [] s = Some s"
| "exec rng (Fill i # as) (c, out) =
     (if i < length (m_producers c) then
        (case run_iteration rng (m_producers c ! i) of
           (Returned True, p) \<Rightarrow> exec rng as (c\<lparr>m_producers := (m_producers c)[i := p]\<rparr>, out)
         | _ \<Rightarrow> None)
      else None)"
| "exec rng (Call # as) (c, out) =
     (case RngCache_generate c of
        (Returned v, c1) \<Rightarrow> exec rng as (c1, out @ [(source c out, v)])
      | _ \<Rightarrow> None)"

text \<open>
  The generator of a Producer is its distribution together with its engine; one draw
  is one evaluation of \<open>distribution(engine)\<close>.
\<close>

definition gen_state :: "('v, 'd, 'e) Producer \<Rightarrow> 'd \<times> 'e" where
  "gen_state p = (m_distribution p, m_engine p)"

definition draw :: "('s, 'v, 'd, 'e) rng \<Rightarrow> 'd \<times> 'e \<Rightarrow> 'v \<times> ('d \<times> 'e)" where
  "draw rng g = (let (v, d, e) = dist_call rng (fst g) (snd g) in (v, (d, e)))"

text \<open>
  Worker \<open>i\<close>'s stream: what its own \<open>generate()\<close> returns, call after call, from the
  state it was constructed in.
\<close>

definition worker_stream ::
  "('s, 'v, 'd, 'e) rng \<Rightarrow> ('v, 'd, 'e) RngCache \<Rightarrow> nat \<Rightarrow> nat \<Rightarrow> 'v" where
  "worker_stream rng c0 i j = nth_call (Producer_generate rng) (m_producers c0 ! i) j"

text \<open>The values of \<open>out\<close> that were read from chunks handed over by Producer \<open>i\<close>.\<close>

definition contributed :: "nat \<Rightarrow> (nat \<times> 'v) list \<Rightarrow> 'v list" where
  "contributed i out = map snd (filter (\<lambda>x. fst x = i) out)"

section \<open>The invariant of the running system\<close>

text \<open>
  \<open>swaps N h i\<close>: how many of the first \<open>h\<close> hand-offs (numbered from 0, hand-off
  \<open>j\<close> going to Producer \<open>j mod N\<close>) went to Producer \<open>i\<close>.
\<close>

fun swaps :: "nat \<Rightarrow> nat \<Rightarrow> nat \<Rightarrow> nat" where
  "swaps N 0 i = 0"
| "swaps N (Suc h) i = swaps N h i + (if h mod N = i then 1 else 0)"

text \<open>
  A Producer that started from generator state \<open>g0\<close> and has handed over \<open>r\<close> chunks:
  either it has refilled (chunk full, holding draws \<open>r * C\<close> to \<open>r * C + C - 1\<close>), or it
  has not yet (chunk exhausted, generator after exactly \<open>r * C\<close> draws).
\<close>

definition worker_ok ::
  "('s, 'v, 'd, 'e) rng \<Rightarrow> nat \<Rightarrow> 'd \<times> 'e \<Rightarrow> nat \<Rightarrow> ('v, 'd, 'e) Producer \<Rightarrow> bool" where
  "worker_ok rng C g0 r p \<longleftrightarrow>
     \<not> m_shutdown p \<and> length (m_values (m_chunk p)) = C \<and>
     (m_nextIndex (m_chunk p) = 0
        \<and> gen_state p = after_calls (draw rng) (Suc r * C) g0
        \<and> m_values (m_chunk p) = calls (draw rng) C (after_calls (draw rng) (r * C) g0)
      \<or> m_nextIndex (m_chunk p) = C
        \<and> gen_state p = after_calls (draw rng) (r * C) g0)"

definition workers_ok ::
  "('s, 'v, 'd, 'e) rng \<Rightarrow> nat \<Rightarrow> ('v, 'd, 'e) RngCache \<Rightarrow> nat \<Rightarrow> ('v, 'd, 'e) RngCache
     \<Rightarrow> bool" where
  "workers_ok rng C c0 h c \<longleftrightarrow>
     length (m_producers c) = length (m_producers c0) \<and>
     m_nextProducer c = h mod length (m_producers c0) \<and>
     (\<forall>i < length (m_producers c0).
        worker_ok rng C (gen_state (m_producers c0 ! i))
          (swaps (length (m_producers c0)) h i) (m_producers c ! i))"

text \<open>What call number \<open>k\<close> (from 0) is to return, and from which Producer.\<close>

definition ideal ::
  "('s, 'v, 'd, 'e) rng \<Rightarrow> nat \<Rightarrow> ('v, 'd, 'e) RngCache \<Rightarrow> nat \<Rightarrow> nat \<times> 'v" where
  "ideal rng C c0 k =
     ((k div C) mod length (m_producers c0),
      worker_stream rng c0 ((k div C) mod length (m_producers c0))
        ((k div C) div length (m_producers c0) * C + k mod C))"

definition log_ok ::
  "('s, 'v, 'd, 'e) rng \<Rightarrow> nat \<Rightarrow> ('v, 'd, 'e) RngCache \<Rightarrow> (nat \<times> 'v) list \<Rightarrow> bool" where
  "log_ok rng C c0 out \<longleftrightarrow>
     (\<forall>k < length out. out ! k = ideal rng C c0 k) \<and>
     (\<forall>i < length (m_producers c0).
        contributed i out =
          calls (draw rng) (length (contributed i out)) (gen_state (m_producers c0 ! i)))"

text \<open>Between chunks: \<open>h\<close> hand-offs done, all \<open>h\<close> chunks consumed.\<close>

definition boundary ::
  "('s, 'v, 'd, 'e) rng \<Rightarrow> nat \<Rightarrow> ('v, 'd, 'e) RngCache \<Rightarrow> nat \<Rightarrow> ('v, 'd, 'e) RngCache
     \<Rightarrow> (nat \<times> 'v) list \<Rightarrow> bool" where
  "boundary rng C c0 h c out \<longleftrightarrow>
     workers_ok rng C c0 h c \<and> log_ok rng C c0 out \<and>
     length (m_values (m_activeChunk c)) = C \<and> m_nextIndex (m_activeChunk c) = C \<and>
     length out = h * C \<and>
     (\<forall>i < length (m_producers c0).
        length (contributed i out) = swaps (length (m_producers c0)) h i * C)"

text \<open>Inside chunk number \<open>g\<close>, of which \<open>m_nextIndex\<close> values are consumed.\<close>

definition running ::
  "('s, 'v, 'd, 'e) rng \<Rightarrow> nat \<Rightarrow> ('v, 'd, 'e) RngCache \<Rightarrow> nat \<Rightarrow> ('v, 'd, 'e) RngCache
     \<Rightarrow> (nat \<times> 'v) list \<Rightarrow> bool" where
  "running rng C c0 g c out \<longleftrightarrow>
     workers_ok rng C c0 (Suc g) c \<and> log_ok rng C c0 out \<and>
     m_values (m_activeChunk c) =
       calls (draw rng) C
         (after_calls (draw rng)
            (swaps (length (m_producers c0)) g (g mod length (m_producers c0)) * C)
            (gen_state (m_producers c0 ! (g mod length (m_producers c0))))) \<and>
     1 \<le> m_nextIndex (m_activeChunk c) \<and> m_nextIndex (m_activeChunk c) \<le> C \<and>
     length out = g * C + m_nextIndex (m_activeChunk c) \<and>
     fst (last out) = g mod length (m_producers c0) \<and>
     (\<forall>i < length (m_producers c0).
        length (contributed i out) =
          swaps (length (m_producers c0)) g i * C
            + (if i = g mod length (m_producers c0) then m_nextIndex (m_activeChunk c) else 0))"

definition cache_inv ::
  "('s, 'v, 'd, 'e) rng \<Rightarrow> nat \<Rightarrow> ('v, 'd, 'e) RngCache \<Rightarrow> ('v, 'd, 'e) RngCache
     \<Rightarrow> (nat \<times> 'v) list \<Rightarrow> bool" where
  "cache_inv rng C c0 c out \<longleftrightarrow>
     boundary rng C c0 0 c out \<or> (\<exists>g. running rng C c0 g c out)"

section \<open>A stand-in engine and distribution\<close>

text \<open>
  For concrete runs: an engine that is a 64-bit counter and returns ten times its
  count, and a stateless distribution that returns one tenth of the engine's draw.  With
  root seed 1 the sub-seeds are 10 and 20, Worker 0 generates 10, 11, 12, ... and
  Worker 1 generates 20, 21, 22, ...
\<close>

definition toy :: "(64 word, 64 word, unit, 64 word) rng" where
  "toy = \<lparr>engine_seed = (\<lambda>s. s),
          engine_call = (\<lambda>e. (10 * e, e + 1)),
          dist_call = (\<lambda>d e. ((10 * e) div 10, d, e + 1))\<rparr>"

text \<open>An entropy device whose first draw is all ones and whose later draws are zero.\<close>

definition ones_then_zeros :: "nat \<Rightarrow> 32 word" where
  "ones_then_zeros i = (if i = 0 then 0xFFFFFFFF else 0)"

section \<open>Chunk: lemmas\<close>

lemma generate_range_calls:
  "generate_range generator xs s =
     (calls generator (length xs) s, after_calls generator (length xs) s)"
  by (induction xs arbitrary: s) (auto split: prod.splits)

lemma length_calls [simp]: "length (calls generator n s) = n"
  by (induction n arbitrary: s) (auto split: prod.splits)

lemma calls_nth:
  "j < n \<Longrightarrow> calls generator n s ! j = nth_call generator s j"
proof (induction n arbitrary: s j)
  case 0
  then show ?case by simp
next
  case (Suc n)
  show ?case
  proof (cases j)
    case 0
    then show ?thesis by (simp add: nth_call_def split: prod.splits)
  next
    case (Suc j')
    with Suc.prems have "j' < n" by simp
    from Suc.IH [OF this, of "snd (generator s)"] Suc show ?thesis
      by (simp add: nth_call_def split_beta)
  qed
qed

lemma after_calls_add:
  "after_calls generator (a + b) s = after_calls generator b (after_calls generator a s)"
  by (induction a arbitrary: s) auto

lemma nth_call_after:
  "nth_call generator (after_calls generator a s) j = nth_call generator s (a + j)"
  by (simp add: nth_call_def after_calls_add)

lemma calls_Suc_snoc:
  "calls generator (Suc n) s = calls generator n s @ [nth_call generator s n]"
proof (induction n arbitrary: s)
  case 0
  then show ?case by (simp add: nth_call_def split: prod.splits)
next
  case (Suc n)
  have "calls generator (Suc (Suc n)) s =
          fst (generator s) # calls generator (Suc n) (snd (generator s))"
    by (simp add: split_beta Let_def)
  also have "\<dots> = fst (generator s) #
      (calls generator n (snd (generator s)) @ [nth_call generator (snd (generator s)) n])"
    by (simp only: Suc.IH)
  also have "nth_call generator (snd (generator s)) n = nth_call generator s (Suc n)"
    by (simp add: nth_call_def)
  finally show ?case by (simp add: split_beta Let_def)
qed

lemma Chunk_fill_eq:
  "Chunk_fill generator c s =
     (c\<lparr>m_values := calls generator (length (m_values c)) s, m_nextIndex := 0\<rparr>,
      after_calls generator (length (m_values c)) s)"
  by (simp add: Chunk_fill_def generate_range_calls)

lemma next_times_ok:
  "m_nextIndex c + n \<le> length (m_values c) \<Longrightarrow>
   next_times n c =
     Inr (take n (drop (m_nextIndex c) (m_values c)), c\<lparr>m_nextIndex := m_nextIndex c + n\<rparr>)"
proof (induction n arbitrary: c)
  case 0
  then show ?case by simp
next
  case (Suc n)
  let ?c1 = "c\<lparr>m_nextIndex := m_nextIndex c + 1\<rparr>"
  from Suc.prems have lt: "m_nextIndex c < length (m_values c)" by simp
  then have nx: "Chunk_next c = Inr (m_values c ! m_nextIndex c, ?c1)"
    by (simp add: Chunk_next_def Chunk_empty_def)
  from Suc.prems have "m_nextIndex ?c1 + n \<le> length (m_values ?c1)" by simp
  from Suc.IH [OF this] have
    "next_times n ?c1 =
       Inr (take n (drop (Suc (m_nextIndex c)) (m_values c)),
            c\<lparr>m_nextIndex := m_nextIndex c + Suc n\<rparr>)"
    by simp
  moreover have "take (Suc n) (drop (m_nextIndex c) (m_values c)) =
      m_values c ! m_nextIndex c # take n (drop (Suc (m_nextIndex c)) (m_values c))"
    using lt by (simp add: Cons_nth_drop_Suc [symmetric])
  ultimately show ?case using nx by simp
qed

text \<open>
  A chunk without slots (\<open>CHUNK_SIZE = 0\<close>, which the spec rules out) is full and empty
  at once, before and after \<open>fill\<close>.
\<close>

lemma Chunk_fill_zero_capacity:
  "length (m_values c) = 0 \<Longrightarrow>
     Chunk_full (fst (Chunk_fill generator c s)) \<and> Chunk_empty (fst (Chunk_fill generator c s))"
  by (simp add: Chunk_fill_eq Chunk_full_def Chunk_empty_def)

section \<open>Chunk: fill and next\<close>

text \<open>
  C8.  \<open>fill(generator)\<close> calls the generator exactly once per slot and stores the
  results in index order: the storage afterwards is the list of the first
  \<open>capacity\<close> results of the generator, slot \<open>i\<close> holds the result of call number
  \<open>i\<close>, and the generator is left in the state after exactly \<open>capacity\<close> calls.  The
  cursor is 0.  For a capacity of at least one (the spec declares \<open>chunkSize = 0\<close>
  invalid) the chunk is then full and not empty, \<open>capacity\<close> consecutive \<open>next()\<close>
  calls succeed, return the stored values in order, and leave the chunk empty.
\<close>

theorem Chunk_fill_invariant:
  assumes "0 < length (m_values c)"
    and "Chunk_fill generator c s = (c1, s1)"
  shows "length (m_values c1) = length (m_values c)
       \<and> m_values c1 = calls generator (length (m_values c)) s
       \<and> (\<forall>i < length (m_values c). m_values c1 ! i = nth_call generator s i)
       \<and> s1 = after_calls generator (length (m_values c)) s
       \<and> m_nextIndex c1 = 0
       \<and> Chunk_full c1 \<and> \<not> Chunk_empty c1
       \<and> (\<exists>c2. next_times (length (m_values c)) c1 = Inr (m_values c1, c2) \<and> Chunk_empty c2)"
proof -
  let ?n = "length (m_values c)"
  from assms(2) have c1: "c1 = c\<lparr>m_values := calls generator ?n s, m_nextIndex := 0\<rparr>"
    and s1: "s1 = after_calls generator ?n s"
    by (simp_all add: Chunk_fill_eq)
  have vals: "m_values c1 = calls generator ?n s" and idx: "m_nextIndex c1 = 0"
    by (simp_all add: c1)
  have len: "length (m_values c1) = ?n" by (simp add: vals)
  have nth: "\<forall>i < ?n. m_values c1 ! i = nth_call generator s i"
    by (simp add: vals calls_nth)
  have full: "Chunk_full c1" by (simp add: Chunk_full_def idx)
  have nonempty: "\<not> Chunk_empty c1" using assms(1) by (simp add: Chunk_empty_def idx len)
  have "m_nextIndex c1 + ?n \<le> length (m_values c1)" by (simp add: idx len)
  from next_times_ok [OF this]
  have nt: "next_times ?n c1 = Inr (m_values c1, c1\<lparr>m_nextIndex := ?n\<rparr>)"
    by (simp add: idx len [symmetric])
  have "Chunk_empty (c1\<lparr>m_nextIndex := ?n\<rparr>)" by (simp add: Chunk_empty_def len)
  with nt have "\<exists>c2. next_times ?n c1 = Inr (m_values c1, c2) \<and> Chunk_empty c2" by blast
  with len vals nth s1 idx full nonempty show ?thesis by blast
qed

text \<open>
  Witness: a chunk of three slots filled by a counter that returns its count; the
  counter is called three times, in slot order.
\<close>

theorem Chunk_fill_invariant_witness:
  "Chunk_fill (\<lambda>n::nat. (n, Suc n)) \<lparr>m_nextIndex = 3, m_values = [7, 7, 7]\<rparr> 5
     = (\<lparr>m_nextIndex = 0, m_values = [5, 6, 7]\<rparr>, 8)
   \<and> Chunk_full \<lparr>m_nextIndex = 0, m_values = [5, 6, 7::nat]\<rparr>
   \<and> \<not> Chunk_empty \<lparr>m_nextIndex = 0, m_values = [5, 6, 7::nat]\<rparr>"
proof -
  let ?c = "\<lparr>m_nextIndex = 3, m_values = [7, 7, 7::nat]\<rparr>"
  let ?c1 = "\<lparr>m_nextIndex = 0, m_values = [5, 6, 7::nat]\<rparr>"
  have pos: "0 < length (m_values ?c)" by simp
  have run: "Chunk_fill (\<lambda>n::nat. (n, Suc n)) ?c 5 = (?c1, 8)"
    by (simp add: Chunk_fill_def)
  from Chunk_fill_invariant [OF pos run] run show ?thesis by simp
qed

text \<open>
  C9.  With the cursor strictly below the capacity the assertion \<open>!empty()\<close> holds,
  \<open>next()\<close> returns the value stored at the cursor (an index inside the array), moves
  the cursor forward by exactly one and leaves it at most the capacity; the storage is
  untouched.  On an empty chunk \<open>next()\<close> has no defined result: the model fails.
\<close>

theorem Chunk_next_contract:
  "(m_nextIndex c < length (m_values c) \<longrightarrow>
      \<not> Chunk_empty c
      \<and> Chunk_next c = Inr (m_values c ! m_nextIndex c, c\<lparr>m_nextIndex := m_nextIndex c + 1\<rparr>)
      \<and> (\<forall>v c1. Chunk_next c = Inr (v, c1) \<longrightarrow>
            v \<in> set (m_values c) \<and> m_nextIndex c1 = m_nextIndex c + 1
            \<and> m_nextIndex c1 \<le> length (m_values c1) \<and> m_values c1 = m_values c))
   \<and> (Chunk_empty c \<longrightarrow> Chunk_next c = Inl AssertFailed)"
  by (auto simp: Chunk_next_def Chunk_empty_def)

theorem Chunk_next_contract_witness:
  "m_nextIndex \<lparr>m_nextIndex = 1, m_values = [10, 11, 12::nat]\<rparr>
      < length (m_values \<lparr>m_nextIndex = 1, m_values = [10, 11, 12::nat]\<rparr>)
   \<and> Chunk_next \<lparr>m_nextIndex = 1, m_values = [10, 11, 12::nat]\<rparr>
       = Inr (11, \<lparr>m_nextIndex = 2, m_values = [10, 11, 12]\<rparr>)
   \<and> Chunk_empty \<lparr>m_nextIndex = 3, m_values = [10, 11, 12::nat]\<rparr>
   \<and> Chunk_next \<lparr>m_nextIndex = 3, m_values = [10, 11, 12::nat]\<rparr> = Inl AssertFailed"
proof -
  let ?c = "\<lparr>m_nextIndex = 1, m_values = [10, 11, 12::nat]\<rparr>"
  let ?e = "\<lparr>m_nextIndex = 3, m_values = [10, 11, 12::nat]\<rparr>"
  have lt: "m_nextIndex ?c < length (m_values ?c)" by simp
  have em: "Chunk_empty ?e" by (simp add: Chunk_empty_def)
  from Chunk_next_contract [of ?c] lt
  have "Chunk_next ?c = Inr (11, \<lparr>m_nextIndex = 2, m_values = [10, 11, 12]\<rparr>)" by simp
  moreover from Chunk_next_contract [of ?e] em have "Chunk_next ?e = Inl AssertFailed"
    by blast
  ultimately show ?thesis using lt em by blast
qed

section \<open>Producer: the hand-off\<close>

text \<open>
  C7.  \<open>swapChunk\<close> throws exactly when the shutdown flag is set, and then the error is
  "illegal access of closed instance" (the flag is looked at first: it wins over a full
  buffer).  It succeeds exactly when the flag is clear and the Worker's buffer is full;
  then the caller holds the Worker's full buffer and the Worker holds the caller's.
  When it throws, the caller's buffer and the Producer are as before the call.  In
  the remaining case, flag clear and buffer not full, the caller is blocked.
\<close>

theorem swapChunk_contract:
  "((\<exists>e. fst (swapChunk p otherChunk) = Threw e) \<longleftrightarrow> m_shutdown p)
   \<and> (fst (swapChunk p otherChunk) = Threw ClosedInstance \<longleftrightarrow> m_shutdown p)
   \<and> (fst (swapChunk p otherChunk) = Returned () \<longleftrightarrow>
        \<not> m_shutdown p \<and> Chunk_full (m_chunk p))
   \<and> (fst (swapChunk p otherChunk) = Returned () \<longrightarrow>
        swapChunk p otherChunk = (Returned (), p\<lparr>m_chunk := otherChunk\<rparr>, m_chunk p)
        \<and> Chunk_full (snd (snd (swapChunk p otherChunk))))
   \<and> (m_shutdown p \<longrightarrow> swapChunk p otherChunk = (Threw ClosedInstance, p, otherChunk))
   \<and> (fst (swapChunk p otherChunk) = Waiting \<longleftrightarrow>
        \<not> m_shutdown p \<and> \<not> Chunk_full (m_chunk p))"
  by (simp add: swapChunk_def swapWaitCondition_def)

text \<open>
  Witness: a Producer whose buffer is full hands it over; after \<open>stop\<close> the same call
  throws and the caller keeps its exhausted buffer.
\<close>

theorem swapChunk_contract_witness:
  "swapChunk \<lparr>m_shutdown = False, m_chunk = \<lparr>m_nextIndex = 0, m_values = [10, 11]\<rparr>,
               m_distribution = (), m_engine = 12 :: nat\<rparr>
             \<lparr>m_nextIndex = 2, m_values = [0, 0 :: nat]\<rparr>
     = (Returned (),
        \<lparr>m_shutdown = False, m_chunk = \<lparr>m_nextIndex = 2, m_values = [0, 0]\<rparr>,
         m_distribution = (), m_engine = 12\<rparr>,
        \<lparr>m_nextIndex = 0, m_values = [10, 11]\<rparr>)
   \<and> swapChunk (stop \<lparr>m_shutdown = False, m_chunk = \<lparr>m_nextIndex = 0, m_values = [10, 11]\<rparr>,
               m_distribution = (), m_engine = 12 :: nat\<rparr>)
             \<lparr>m_nextIndex = 2, m_values = [0, 0 :: nat]\<rparr>
     = (Threw ClosedInstance,
        \<lparr>m_shutdown = True, m_chunk = \<lparr>m_nextIndex = 0, m_values = [10, 11]\<rparr>,
         m_distribution = (), m_engine = 12\<rparr>,
        \<lparr>m_nextIndex = 2, m_values = [0, 0]\<rparr>)"
proof -
  let ?p = "\<lparr>m_shutdown = False, m_chunk = \<lparr>m_nextIndex = 0, m_values = [10, 11 :: nat]\<rparr>,
             m_distribution = (), m_engine = 12 :: nat\<rparr>"
  let ?a = "\<lparr>m_nextIndex = 2, m_values = [0, 0 :: nat]\<rparr>"
  have ok: "fst (swapChunk ?p ?a) = Returned ()"
    by (simp add: swapChunk_def swapWaitCondition_def Chunk_full_def)
  have down: "m_shutdown (stop ?p)" by (simp add: stop_def)
  from swapChunk_contract [of ?p ?a] ok
  have "swapChunk ?p ?a = (Returned (), ?p\<lparr>m_chunk := ?a\<rparr>, m_chunk ?p)" by blast
  moreover from swapChunk_contract [of "stop ?p" ?a] down
  have "swapChunk (stop ?p) ?a = (Threw ClosedInstance, stop ?p, ?a)" by blast
  ultimately show ?thesis by (simp add: stop_def)
qed

text \<open>
  C10.  A successful \<open>swapChunk\<close> changes, of the Producer, the chunk field only: engine,
  distribution and shutdown flag are as before, the chunk is the caller's former one,
  and the next \<open>generate()\<close> of the Producer returns the value it would have returned
  without the hand-off and leaves engine and distribution in the same states.
\<close>

theorem swapChunk_frame:
  assumes "swapChunk p otherChunk = (Returned (), p1, c1)"
  shows "m_engine p1 = m_engine p \<and> m_distribution p1 = m_distribution p
       \<and> m_shutdown p1 = m_shutdown p
       \<and> p1 = p\<lparr>m_chunk := otherChunk\<rparr> \<and> c1 = m_chunk p
       \<and> fst (Producer_generate rng p1) = fst (Producer_generate rng p)
       \<and> m_engine (snd (Producer_generate rng p1)) = m_engine (snd (Producer_generate rng p))
       \<and> m_distribution (snd (Producer_generate rng p1))
           = m_distribution (snd (Producer_generate rng p))"
proof -
  from assms have p1: "p1 = p\<lparr>m_chunk := otherChunk\<rparr>" and c1: "c1 = m_chunk p"
    by (auto simp: swapChunk_def split: if_splits)
  show ?thesis
    by (simp add: p1 c1 Producer_generate_def split_beta)
qed

theorem swapChunk_frame_witness:
  "swapChunk \<lparr>m_shutdown = False, m_chunk = \<lparr>m_nextIndex = 0, m_values = [10, 11]\<rparr>,
               m_distribution = (), m_engine = 12 :: 64 word\<rparr>
             \<lparr>m_nextIndex = 2, m_values = [0, 0 :: 64 word]\<rparr>
     = (Returned (),
        \<lparr>m_shutdown = False, m_chunk = \<lparr>m_nextIndex = 2, m_values = [0, 0]\<rparr>,
         m_distribution = (), m_engine = 12\<rparr>,
        \<lparr>m_nextIndex = 0, m_values = [10, 11]\<rparr>)
   \<and> fst (Producer_generate toy
        \<lparr>m_shutdown = False, m_chunk = \<lparr>m_nextIndex = 2, m_values = [0, 0]\<rparr>,
         m_distribution = (), m_engine = 12 :: 64 word\<rparr>)
     = fst (Producer_generate toy
        \<lparr>m_shutdown = False, m_chunk = \<lparr>m_nextIndex = 0, m_values = [10, 11]\<rparr>,
         m_distribution = (), m_engine = 12 :: 64 word\<rparr>)"
proof -
  let ?p = "\<lparr>m_shutdown = False, m_chunk = \<lparr>m_nextIndex = 0, m_values = [10, 11 :: 64 word]\<rparr>,
             m_distribution = (), m_engine = 12 :: 64 word\<rparr>"
  let ?a = "\<lparr>m_nextIndex = 2, m_values = [0, 0 :: 64 word]\<rparr>"
  let ?p1 = "\<lparr>m_shutdown = False, m_chunk = ?a, m_distribution = (), m_engine = 12 :: 64 word\<rparr>"
  have sw: "swapChunk ?p ?a = (Returned (), ?p1, \<lparr>m_nextIndex = 0, m_values = [10, 11]\<rparr>)"
    by (simp add: swapChunk_def swapWaitCondition_def Chunk_full_def)
  from swapChunk_frame [OF sw, of toy] sw show ?thesis by simp
qed

section \<open>Seeding\<close>

lemma randomSeed_64_32:
  "(randomSeed (device :: nat \<Rightarrow> 32 word) :: 64 word)
     = push_bit 4 (ucast (device 0)) OR ucast (device 1)"
  by (simp add: randomSeed_def)

text \<open>
  C5.  For the default engine (\<open>std::mt19937_64\<close>, a 64-bit seed) and a 32-bit entropy
  device, \<open>randomSeed\<close> makes two draws and shifts the first one in by
  \<open>sizeof(Device::result_type) = 4\<close> bits, not by the device's width of 32 bits: the two
  draws overlap, and bits 36 to 63 of the seed are zero whatever the device returns.
  At the draws \<open>0xFFFFFFFF\<close>, \<open>0\<close> the seed is \<open>0xFFFFFFFF0\<close>, where the baseline of
  \<open>performance_test.cpp\<close>, which shifts by 32, has \<open>0xFFFFFFFF00000000\<close>.
\<close>

theorem randomSeed_shifts_by_byte_count:
  "(randomSeed (device :: nat \<Rightarrow> 32 word) :: 64 word)
      = push_bit 4 (ucast (device 0)) OR ucast (device 1)
   \<and> drop_bit 36 (randomSeed device :: 64 word) = 0
   \<and> (randomSeed ones_then_zeros :: 64 word) = 0xFFFFFFFF0
   \<and> baseline_seed ones_then_zeros = 0xFFFFFFFF00000000"
proof -
  have "drop_bit 36 (randomSeed device :: 64 word) = 0"
    unfolding randomSeed_64_32
    by (rule bit_word_eqI) (auto simp: bit_simps dest: bit_imp_le_length)
  moreover have "(randomSeed ones_then_zeros :: 64 word) = 0xFFFFFFFF0"
    by (simp add: randomSeed_64_32 ones_then_zeros_def)
  moreover have "baseline_seed ones_then_zeros = 0xFFFFFFFF00000000"
    by (simp add: baseline_seed_def ones_then_zeros_def)
  ultimately show ?thesis by (simp add: randomSeed_64_32)
qed

section \<open>Construction\<close>

lemma upt_0_Suc_shift: "[0..<Suc n] = 0 # map Suc [0..<n]"
  by (simp add: upt_conv_Cons map_Suc_upt del: upt_Suc)

lemma nth_call_Suc:
  "nth_call generator s (Suc k) = nth_call generator (snd (generator s)) k"
  by (simp add: nth_call_def)

lemma create_loop_producers:
  "fst (create_loop rng C distribution root i n) =
     map (\<lambda>k. Producer_new rng C distribution (nth_call (engine_call rng) root k)) [0..<n]"
proof (induction n arbitrary: root i)
  case 0
  then show ?case by simp
next
  case (Suc n)
  have "fst (create_loop rng C distribution root i (Suc n)) =
      Producer_new rng C distribution (fst (engine_call rng root))
        # fst (create_loop rng C distribution (snd (engine_call rng root)) (Suc i) n)"
    by (simp add: split_beta Let_def)
  also have "\<dots> = Producer_new rng C distribution (nth_call (engine_call rng) root 0)
        # map (\<lambda>k. Producer_new rng C distribution (nth_call (engine_call rng) root (Suc k)))
            [0..<n]"
    by (simp only: Suc.IH nth_call_Suc) (simp add: nth_call_def)
  finally show ?case
    by (simp only: upt_0_Suc_shift list.map map_map o_def)
qed

lemma create_loop_events:
  "snd (create_loop rng C distribution root i n) =
     concat (map (\<lambda>k. [SeedDrawn (i + k) (nth_call (engine_call rng) root k),
                        ThreadSpawned (i + k) (nth_call (engine_call rng) root k)]) [0..<n])"
proof (induction n arbitrary: root i)
  case 0
  then show ?case by simp
next
  case (Suc n)
  have "snd (create_loop rng C distribution root i (Suc n)) =
      SeedDrawn i (fst (engine_call rng root)) # ThreadSpawned i (fst (engine_call rng root))
        # snd (create_loop rng C distribution (snd (engine_call rng root)) (Suc i) n)"
    by (simp add: split_beta Let_def)
  also have "\<dots> = [SeedDrawn (i + 0) (nth_call (engine_call rng) root 0),
                   ThreadSpawned (i + 0) (nth_call (engine_call rng) root 0)]
        @ concat (map (\<lambda>k. [SeedDrawn (i + Suc k) (nth_call (engine_call rng) root (Suc k)),
                             ThreadSpawned (i + Suc k) (nth_call (engine_call rng) root (Suc k))])
            [0..<n])"
    by (simp only: Suc.IH nth_call_Suc) (simp add: nth_call_def)
  finally show ?case
    by (simp only: upt_0_Suc_shift list.map map_map o_def concat.simps)
qed

lemma create_producers:
  "fst (create rng C distribution seed n) =
     map (\<lambda>i. Producer_new rng C distribution (sub_seed rng seed i)) [0..<n]"
  by (simp add: create_def create_loop_producers sub_seed_def)

text \<open>
  C4, as the code has it.  \<open>create\<close> builds the root engine from the seed and returns
  \<open>count\<close> Producers; Producer \<open>i\<close> is constructed from the \<open>i\<close>-th sequential draw of
  the root engine.  Draws and thread starts alternate: each sub-seed is drawn right
  before its own Producer is constructed and its thread started.
\<close>

theorem create_sub_seeds:
  "fst (create rng C distribution seed count) =
      map (\<lambda>i. Producer_new rng C distribution (sub_seed rng seed i)) [0..<count]
   \<and> snd (create rng C distribution seed count) =
      concat (map (\<lambda>i. [SeedDrawn i (sub_seed rng seed i),
                         ThreadSpawned i (sub_seed rng seed i)]) [0..<count])"
  by (simp add: create_producers) (simp add: create_def create_loop_events sub_seed_def)

text \<open>
  The claim as stated asks for all draws before any thread start.  With two workers
  the first thread is started before the second sub-seed is drawn.
\<close>

theorem create_spawns_before_later_draws:
  "snd (create toy 4 () 1 2)
     = [SeedDrawn 0 10, ThreadSpawned 0 10, SeedDrawn 1 20, ThreadSpawned 1 20]
   \<and> \<not> seeds_before_threads (snd (create toy 4 () 1 2))"
proof -
  have "snd (create toy 4 () 1 2)
     = [SeedDrawn 0 10, ThreadSpawned 0 10, SeedDrawn 1 20, ThreadSpawned 1 20]"
    by (simp add: create_def toy_def numeral_2_eq_2 split_beta Let_def)
  then show ?thesis by (simp add: seeds_before_threads_def)
qed

lemma RngCache_ctor_given:
  "RngCache_ctor rng C device hardware_concurrency distribution (Some seed) (Some N)
     = RngCache_new rng C distribution seed N"
  by (simp add: RngCache_ctor_def)

text \<open>
  C6, as the code has it.  The pool has exactly \<open>threadCount\<close> Producers when the
  argument is given and exactly as many as the hardware query reports otherwise; nothing
  is rejected and nothing is raised to 1.  The iterator starts at the first slot, and
  \<open>nextProducer\<close> on the constructed cache dereferences the end iterator exactly when
  that number is zero.
\<close>

theorem RngCache_ctor_pool_size:
  "length (m_producers
      (RngCache_ctor rng C device hardware_concurrency distribution seed threadCount))
     = (case threadCount of Some n \<Rightarrow> n | None \<Rightarrow> hardware_concurrency)
   \<and> m_nextProducer
      (RngCache_ctor rng C device hardware_concurrency distribution seed threadCount) = 0
   \<and> (nextProducer
        (RngCache_ctor rng C device hardware_concurrency distribution seed threadCount)
        = Inl InvalidIterator
      \<longleftrightarrow> (case threadCount of Some n \<Rightarrow> n | None \<Rightarrow> hardware_concurrency) = 0)"
  by (simp add: RngCache_ctor_def RngCache_new_def create_producers nextProducer_def Let_def)

text \<open>
  With no worker count given and a hardware query that reports zero, and equally with
  a worker count of zero, the pool is empty and the first \<open>generate()\<close> is undefined.
\<close>

theorem RngCache_ctor_empty_pool:
  "m_producers (RngCache_ctor toy 4 ones_then_zeros 0 () (Some 1) None) = []
   \<and> fst (RngCache_generate (RngCache_ctor toy 4 ones_then_zeros 0 () (Some 1) None))
       = Threw InvalidIterator
   \<and> m_producers (RngCache_ctor toy 4 ones_then_zeros 8 () (Some 1) (Some 0)) = []
   \<and> fst (RngCache_generate (RngCache_ctor toy 4 ones_then_zeros 8 () (Some 1) (Some 0)))
       = Threw InvalidIterator"
  by (simp add: RngCache_ctor_def RngCache_new_def create_def RngCache_generate_def
      nextProducer_def Chunk_new_def Chunk_empty_def)

section \<open>The running system: the invariant holds\<close>

lemma Producer_generate_draw:
  "fst (Producer_generate rng p) = fst (draw rng (gen_state p))"
  "gen_state (snd (Producer_generate rng p)) = snd (draw rng (gen_state p))"
  "m_shutdown (snd (Producer_generate rng p)) = m_shutdown p"
  "m_chunk (snd (Producer_generate rng p)) = m_chunk p"
  by (simp_all add: Producer_generate_def draw_def gen_state_def split_beta)

lemma calls_Producer_generate:
  "calls (Producer_generate rng) n p = calls (draw rng) n (gen_state p)"
  by (induction n arbitrary: p) (simp_all add: split_beta Producer_generate_draw)

lemma after_calls_Producer_generate:
  "gen_state (after_calls (Producer_generate rng) n p) = after_calls (draw rng) n (gen_state p)
   \<and> m_shutdown (after_calls (Producer_generate rng) n p) = m_shutdown p"
  by (induction n arbitrary: p) (simp_all add: Producer_generate_draw)

lemma nth_call_Producer_generate:
  "nth_call (Producer_generate rng) p j = nth_call (draw rng) (gen_state p) j"
  by (simp add: nth_call_def Producer_generate_draw after_calls_Producer_generate)

lemma run_iteration_fill:
  assumes "run_iteration rng p = (Returned True, p1)"
  shows "\<not> m_shutdown p" and "m_nextIndex (m_chunk p) = length (m_values (m_chunk p))"
    and "m_shutdown p1 = m_shutdown p"
    and "gen_state p1 = after_calls (draw rng) (length (m_values (m_chunk p))) (gen_state p)"
    and "m_values (m_chunk p1) = calls (draw rng) (length (m_values (m_chunk p))) (gen_state p)"
    and "m_nextIndex (m_chunk p1) = 0"
proof -
  from assms show a: "\<not> m_shutdown p"
    by (auto simp: run_iteration_def split: if_splits)
  from assms a show "m_nextIndex (m_chunk p) = length (m_values (m_chunk p))"
    by (auto simp: run_iteration_def fillWaitCondition_def Chunk_empty_def split: if_splits)
  let ?n = "length (m_values (m_chunk p))"
  from assms have p1: "p1 = (after_calls (Producer_generate rng) ?n p)
      \<lparr>m_chunk := (m_chunk p)\<lparr>m_values := calls (Producer_generate rng) ?n p, m_nextIndex := 0\<rparr>\<rparr>"
    by (auto simp: run_iteration_def Chunk_fill_eq split: if_splits)
  show "m_shutdown p1 = m_shutdown p"
    by (simp add: p1 after_calls_Producer_generate)
  have "gen_state p1 = gen_state (after_calls (Producer_generate rng) ?n p)"
    by (simp add: p1 gen_state_def)
  then show "gen_state p1 = after_calls (draw rng) ?n (gen_state p)"
    by (simp add: after_calls_Producer_generate)
  show "m_values (m_chunk p1) = calls (draw rng) ?n (gen_state p)"
    by (simp add: p1 calls_Producer_generate)
  show "m_nextIndex (m_chunk p1) = 0" by (simp add: p1)
qed

lemma worker_ok_fill:
  assumes ok: "worker_ok rng C g0 r p" and C: "0 < C"
    and it: "run_iteration rng p = (Returned True, p1)"
  shows "worker_ok rng C g0 r p1"
proof -
  note f = run_iteration_fill [OF it]
  from ok have len: "length (m_values (m_chunk p)) = C" by (simp add: worker_ok_def)
  with f(2) C have "m_nextIndex (m_chunk p) \<noteq> 0" by simp
  with ok have g: "gen_state p = after_calls (draw rng) (r * C) g0"
    by (auto simp: worker_ok_def)
  have "gen_state p1 = after_calls (draw rng) (Suc r * C) g0"
    using f(4) by (simp add: len g after_calls_add [symmetric] add.commute)
  moreover have "m_values (m_chunk p1) = calls (draw rng) C (after_calls (draw rng) (r * C) g0)"
    using f(5) by (simp add: len g)
  ultimately show ?thesis using f(1,3,6) by (simp add: worker_ok_def)
qed

lemma run_iteration_enabled:
  assumes ok: "worker_ok rng C g0 r p" and ne: "\<not> Chunk_full (m_chunk p)"
  shows "\<exists>p1. run_iteration rng p = (Returned True, p1)"
  using assms
  by (auto simp: worker_ok_def run_iteration_def fillWaitCondition_def Chunk_empty_def
      Chunk_full_def split_beta)

lemma swaps_closed:
  "i < N \<Longrightarrow> swaps N h i = h div N + (if i < h mod N then 1 else 0)"
proof (induction h)
  case 0
  then show ?case by simp
next
  case (Suc h)
  then show ?case
    by (auto simp: div_Suc mod_Suc)
qed

lemma swaps_self: "0 < N \<Longrightarrow> swaps N h (h mod N) = h div N"
  by (simp add: swaps_closed)

lemma workers_ok_worker_step:
  assumes ok: "workers_ok rng C c0 h c" and C: "0 < C"
    and i: "i < length (m_producers c)"
    and it: "run_iteration rng (m_producers c ! i) = (Returned True, p)"
  shows "workers_ok rng C c0 h (c\<lparr>m_producers := (m_producers c)[i := p]\<rparr>)"
proof -
  let ?N = "length (m_producers c0)"
  from ok have len: "length (m_producers c) = ?N"
    and cur: "m_nextProducer c = h mod ?N"
    and all: "\<And>j. j < ?N \<Longrightarrow>
        worker_ok rng C (gen_state (m_producers c0 ! j)) (swaps ?N h j) (m_producers c ! j)"
    by (simp_all add: workers_ok_def)
  have "worker_ok rng C (gen_state (m_producers c0 ! j)) (swaps ?N h j)
          ((m_producers c)[i := p] ! j)" if j: "j < ?N" for j
  proof (cases "j = i")
    case True
    with all [OF j] worker_ok_fill [OF _ C it] i show ?thesis by simp
  next
    case False
    with all [OF j] show ?thesis by simp
  qed
  with len cur show ?thesis by (simp add: workers_ok_def)
qed

lemma boundary_worker_step:
  assumes "boundary rng C c0 h c out" and "0 < C" and "i < length (m_producers c)"
    and "run_iteration rng (m_producers c ! i) = (Returned True, p)"
  shows "boundary rng C c0 h (c\<lparr>m_producers := (m_producers c)[i := p]\<rparr>) out"
  using assms workers_ok_worker_step [OF _ assms(2,3,4), of c0 h]
  by (simp add: boundary_def)

lemma running_worker_step:
  assumes "running rng C c0 g c out" and "0 < C" and "i < length (m_producers c)"
    and "run_iteration rng (m_producers c ! i) = (Returned True, p)"
  shows "running rng C c0 g (c\<lparr>m_producers := (m_producers c)[i := p]\<rparr>) out"
  using assms workers_ok_worker_step [OF _ assms(2,3,4), of c0 "Suc g"]
  by (simp add: running_def)

lemma cache_inv_worker_step:
  assumes "cache_inv rng C c0 c out" and "0 < C" and "i < length (m_producers c)"
    and "run_iteration rng (m_producers c ! i) = (Returned True, p)"
  shows "cache_inv rng C c0 (c\<lparr>m_producers := (m_producers c)[i := p]\<rparr>) out"
  using assms boundary_worker_step [OF _ assms(2,3,4)] running_worker_step [OF _ assms(2,3,4)]
  unfolding cache_inv_def by blast

lemma contributed_snoc:
  "contributed i (out @ [(j, v)]) = (if i = j then contributed i out @ [v] else contributed i out)"
  by (simp add: contributed_def)

lemma log_ok_snoc:
  assumes ok: "log_ok rng C c0 out"
    and src: "src < length (m_producers c0)"
    and pos: "ideal rng C c0 (length out) = (src, v)"
    and v: "v = nth_call (draw rng) (gen_state (m_producers c0 ! src)) (length (contributed src out))"
  shows "log_ok rng C c0 (out @ [(src, v)])"
proof -
  from ok have a: "\<And>k. k < length out \<Longrightarrow> out ! k = ideal rng C c0 k"
    and b: "\<And>i. i < length (m_producers c0) \<Longrightarrow> contributed i out =
          calls (draw rng) (length (contributed i out)) (gen_state (m_producers c0 ! i))"
    by (simp_all add: log_ok_def)
  have "(out @ [(src, v)]) ! k = ideal rng C c0 k" if "k < length (out @ [(src, v)])" for k
  proof (cases "k < length out")
    case True
    then show ?thesis by (simp add: nth_append a)
  next
    case False
    with that have "k = length out" by simp
    then show ?thesis by (simp add: pos)
  qed
  moreover have "contributed i (out @ [(src, v)]) =
      calls (draw rng) (length (contributed i (out @ [(src, v)])))
        (gen_state (m_producers c0 ! i))" if i: "i < length (m_producers c0)" for i
  proof (cases "i = src")
    case True
    have "contributed src out @ [v] =
        calls (draw rng) (Suc (length (contributed src out))) (gen_state (m_producers c0 ! src))"
      unfolding calls_Suc_snoc using b [OF src] v by simp
    with True show ?thesis by (simp add: contributed_snoc del: calls.simps)
  next
    case False
    with b [OF i] show ?thesis by (simp add: contributed_snoc)
  qed
  ultimately show ?thesis unfolding log_ok_def by blast
qed

lemma pop_active_ok:
  assumes "m_nextIndex (m_activeChunk c) < length (m_values (m_activeChunk c))"
  shows "pop_active c =
    (Returned (m_values (m_activeChunk c) ! m_nextIndex (m_activeChunk c)),
     c\<lparr>m_activeChunk := (m_activeChunk c)\<lparr>m_nextIndex := m_nextIndex (m_activeChunk c) + 1\<rparr>\<rparr>)"
  using assms by (simp add: pop_active_def Chunk_next_def Chunk_empty_def)

lemma running_boundary:
  assumes r: "running rng C c0 g c out" and full: "m_nextIndex (m_activeChunk c) = C"
  shows "boundary rng C c0 (Suc g) c out"
proof -
  from r have "length (m_values (m_activeChunk c)) = C"
    by (simp add: running_def)
  with r full show ?thesis
    by (simp add: running_def boundary_def add_mult_distrib)
qed

lemma ideal_at:
  assumes N: "0 < length (m_producers c0)" and idx: "idx < C"
  shows "ideal rng C c0 (g * C + idx) =
    (g mod length (m_producers c0),
     nth_call (draw rng)
       (after_calls (draw rng)
          (swaps (length (m_producers c0)) g (g mod length (m_producers c0)) * C)
          (gen_state (m_producers c0 ! (g mod length (m_producers c0))))) idx)"
  using idx
  by (simp add: ideal_def worker_stream_def nth_call_Producer_generate nth_call_after
      swaps_self [OF N])

lemma generate_pop:
  assumes r: "running rng C c0 g c out" and N: "0 < length (m_producers c0)"
    and idx: "m_nextIndex (m_activeChunk c) < C"
  shows "\<exists>v c1. RngCache_generate c = (Returned v, c1)
           \<and> running rng C c0 g c1 (out @ [(source c out, v)])"
proof -
  let ?N = "length (m_producers c0)"
  let ?a = "m_activeChunk c"
  let ?src = "g mod ?N"
  let ?g0 = "gen_state (m_producers c0 ! ?src)"
  let ?v = "m_values ?a ! m_nextIndex ?a"
  let ?c1 = "c\<lparr>m_activeChunk := ?a\<lparr>m_nextIndex := m_nextIndex ?a + 1\<rparr>\<rparr>"
  from r have w: "workers_ok rng C c0 (Suc g) c" and l: "log_ok rng C c0 out"
    and vals: "m_values ?a = calls (draw rng) C (after_calls (draw rng) (swaps ?N g ?src * C) ?g0)"
    and one: "1 \<le> m_nextIndex ?a"
    and len: "length out = g * C + m_nextIndex ?a"
    and last: "fst (last out) = ?src"
    and cnt: "\<And>i. i < ?N \<Longrightarrow> length (contributed i out) =
          swaps ?N g i * C + (if i = ?src then m_nextIndex ?a else 0)"
    by (simp_all add: running_def)
  from vals have lenv: "length (m_values ?a) = C" by simp
  from idx lenv have ne: "\<not> Chunk_empty ?a" by (simp add: Chunk_empty_def)
  from idx lenv have gen: "RngCache_generate c = (Returned ?v, ?c1)"
    by (simp add: RngCache_generate_def ne pop_active_ok)
  from one len have "out \<noteq> []" by auto
  with ne last have src: "source c out = ?src"
    by (cases out) (simp_all add: source_def)
  have srcN: "?src < ?N" using N by simp
  have v: "?v = nth_call (draw rng) (after_calls (draw rng) (swaps ?N g ?src * C) ?g0)
               (m_nextIndex ?a)"
    using idx by (simp add: vals calls_nth)
  have pos: "ideal rng C c0 (length out) = (?src, ?v)"
    by (simp only: len ideal_at [OF N idx] v)
  have v2: "?v = nth_call (draw rng) ?g0 (length (contributed ?src out))"
    by (simp add: v nth_call_after cnt [OF srcN])
  have l1: "log_ok rng C c0 (out @ [(?src, ?v)])"
    by (rule log_ok_snoc [OF l srcN pos v2])
  have w1: "workers_ok rng C c0 (Suc g) ?c1"
    using w by (simp add: workers_ok_def)
  have "running rng C c0 g ?c1 (out @ [(?src, ?v)])"
    unfolding running_def
    using w1 l1 vals idx len cnt by (simp add: contributed_snoc)
  with gen src show ?thesis by simp
qed

lemma generate_waiting:
  assumes b: "boundary rng C c0 h c out" and N: "0 < length (m_producers c0)"
    and nf: "\<not> Chunk_full (m_chunk (m_producers c ! (h mod length (m_producers c0))))"
  shows "RngCache_generate c = (Waiting, c)"
proof -
  let ?N = "length (m_producers c0)"
  let ?i = "h mod ?N"
  from b have w: "workers_ok rng C c0 h c"
    and lenv: "length (m_values (m_activeChunk c)) = C"
    and full: "m_nextIndex (m_activeChunk c) = C"
    by (simp_all add: boundary_def)
  from w have lenp: "length (m_producers c) = ?N" and cur: "m_nextProducer c = ?i"
    and ok: "worker_ok rng C (gen_state (m_producers c0 ! ?i)) (swaps ?N h ?i) (m_producers c ! ?i)"
    using N by (simp_all add: workers_ok_def)
  from ok have "\<not> m_shutdown (m_producers c ! ?i)" by (simp add: worker_ok_def)
  with nf have "swapChunk (m_producers c ! ?i) (m_activeChunk c)
      = (Waiting, m_producers c ! ?i, m_activeChunk c)"
    by (simp add: swapChunk_def swapWaitCondition_def)
  moreover have "Chunk_empty (m_activeChunk c)" by (simp add: Chunk_empty_def lenv full)
  ultimately show ?thesis
    using N by (simp add: RngCache_generate_def nextProducer_def cur lenp Let_def)
qed

lemma generate_swap:
  assumes b: "boundary rng C c0 h c out" and N: "0 < length (m_producers c0)" and C: "0 < C"
    and f: "Chunk_full (m_chunk (m_producers c ! (h mod length (m_producers c0))))"
  shows "\<exists>v c1. RngCache_generate c = (Returned v, c1)
           \<and> running rng C c0 h c1 (out @ [(source c out, v)])"
proof -
  let ?N = "length (m_producers c0)"
  let ?i = "h mod ?N"
  let ?p = "m_producers c ! ?i"
  let ?g0 = "gen_state (m_producers c0 ! ?i)"
  let ?a = "m_activeChunk c"
  let ?p1 = "?p\<lparr>m_chunk := ?a\<rparr>"
  let ?v = "m_values (m_chunk ?p) ! 0"
  let ?c1 = "c\<lparr>m_nextProducer := Suc h mod ?N,
               m_producers := (m_producers c)[?i := ?p1],
               m_activeChunk := (m_chunk ?p)\<lparr>m_nextIndex := 1\<rparr>\<rparr>"
  from b have w: "workers_ok rng C c0 h c" and l: "log_ok rng C c0 out"
    and lenv: "length (m_values ?a) = C" and full: "m_nextIndex ?a = C"
    and len: "length out = h * C"
    and cnt: "\<And>i. i < ?N \<Longrightarrow> length (contributed i out) = swaps ?N h i * C"
    by (simp_all add: boundary_def)
  have iN: "?i < ?N" using N by simp
  from w have lenp: "length (m_producers c) = ?N" and cur: "m_nextProducer c = ?i"
    and all: "\<And>j. j < ?N \<Longrightarrow>
        worker_ok rng C (gen_state (m_producers c0 ! j)) (swaps ?N h j) (m_producers c ! j)"
    by (simp_all add: workers_ok_def)
  note ok = all [OF iN]
  from ok have ns: "\<not> m_shutdown ?p" and lenc: "length (m_values (m_chunk ?p)) = C"
    by (simp_all add: worker_ok_def)
  from f have idx0: "m_nextIndex (m_chunk ?p) = 0" by (simp add: Chunk_full_def)
  with ok C have gs: "gen_state ?p = after_calls (draw rng) (Suc (swaps ?N h ?i) * C) ?g0"
    and vals: "m_values (m_chunk ?p) =
        calls (draw rng) C (after_calls (draw rng) (swaps ?N h ?i * C) ?g0)"
    by (auto simp: worker_ok_def)
  have sw: "swapChunk ?p ?a = (Returned (), ?p1, m_chunk ?p)"
    using ns f by (simp add: swapChunk_def swapWaitCondition_def)
  have em: "Chunk_empty ?a" by (simp add: Chunk_empty_def lenv full)
  have np: "nextProducer c = Inr (?i, c\<lparr>m_nextProducer := Suc h mod ?N\<rparr>)"
    using iN by (simp add: nextProducer_def cur lenp Let_def mod_Suc)
  have pop: "pop_active (c\<lparr>m_nextProducer := Suc h mod ?N,
                 m_producers := (m_producers c)[?i := ?p1], m_activeChunk := m_chunk ?p\<rparr>)
      = (Returned ?v, ?c1)"
    using C by (simp add: pop_active_def Chunk_next_def Chunk_empty_def idx0 lenc)
  have gen: "RngCache_generate c = (Returned ?v, ?c1)"
    using pop by (simp add: RngCache_generate_def em np sw)
  have src: "source c out = ?i" by (simp add: source_def em cur)
  have v: "?v = nth_call (draw rng) (after_calls (draw rng) (swaps ?N h ?i * C) ?g0) 0"
    using C by (simp add: vals calls_nth)
  have pos: "ideal rng C c0 (length out) = (?i, ?v)"
    using ideal_at [OF N C, of rng h] by (simp add: len v)
  have v2: "?v = nth_call (draw rng) ?g0 (length (contributed ?i out))"
    by (simp add: v nth_call_after cnt [OF iN])
  have l1: "log_ok rng C c0 (out @ [(?i, ?v)])"
    by (rule log_ok_snoc [OF l iN pos v2])
  have p1ok: "worker_ok rng C ?g0 (swaps ?N (Suc h) ?i) ?p1"
    using ns gs by (simp add: worker_ok_def lenv full gen_state_def)
  have "worker_ok rng C (gen_state (m_producers c0 ! j)) (swaps ?N (Suc h) j)
          ((m_producers c)[?i := ?p1] ! j)" if j: "j < ?N" for j
  proof (cases "j = ?i")
    case True
    with p1ok iN lenp show ?thesis by simp
  next
    case False
    with all [OF j] show ?thesis by simp
  qed
  then have w1: "workers_ok rng C c0 (Suc h) ?c1"
    by (simp add: workers_ok_def lenp)
  have "running rng C c0 h ?c1 (out @ [(?i, ?v)])"
    unfolding running_def
    using w1 l1 vals C len cnt by (simp add: contributed_snoc)
  with gen src show ?thesis by simp
qed

lemma boundary_consumer_step:
  assumes b: "boundary rng C c0 h c out" and N: "0 < length (m_producers c0)" and C: "0 < C"
    and gen: "RngCache_generate c = (Returned v, c1)"
  shows "running rng C c0 h c1 (out @ [(source c out, v)])"
proof (cases "Chunk_full (m_chunk (m_producers c ! (h mod length (m_producers c0))))")
  case True
  from generate_swap [OF b N C True] gen show ?thesis by auto
next
  case False
  from generate_waiting [OF b N False] gen show ?thesis by simp
qed

lemma cache_inv_cases:
  assumes "cache_inv rng C c0 c out"
  shows "(\<exists>h. boundary rng C c0 h c out)
       \<or> (\<exists>g. running rng C c0 g c out \<and> m_nextIndex (m_activeChunk c) < C)"
proof -
  from assms consider "boundary rng C c0 0 c out" | g where "running rng C c0 g c out"
    unfolding cache_inv_def by blast
  then show ?thesis
  proof cases
    case 1
    then show ?thesis by blast
  next
    case 2
    show ?thesis
    proof (cases "m_nextIndex (m_activeChunk c) < C")
      case True
      with 2 show ?thesis by blast
    next
      case False
      with 2 have "m_nextIndex (m_activeChunk c) = C" by (simp add: running_def)
      from running_boundary [OF 2 this] show ?thesis by blast
    qed
  qed
qed

lemma cache_inv_consumer_step:
  assumes inv: "cache_inv rng C c0 c out" and N: "0 < length (m_producers c0)" and C: "0 < C"
    and gen: "RngCache_generate c = (Returned v, c1)"
  shows "cache_inv rng C c0 c1 (out @ [(source c out, v)])"
proof -
  from cache_inv_cases [OF inv] consider h where "boundary rng C c0 h c out"
    | g where "running rng C c0 g c out" "m_nextIndex (m_activeChunk c) < C"
    by blast
  then show ?thesis
  proof cases
    case 1
    from boundary_consumer_step [OF 1 N C gen] show ?thesis
      unfolding cache_inv_def by blast
  next
    case 2
    from generate_pop [OF 2(1) N 2(2)] gen show ?thesis
      unfolding cache_inv_def by auto
  qed
qed

lemma RngCache_new_producers:
  "m_producers (RngCache_new rng C distribution seed N) =
     map (\<lambda>i. Producer_new rng C distribution (sub_seed rng seed i)) [0..<N]"
  by (simp add: RngCache_new_def create_producers)

lemma RngCache_new_gen_state:
  "i < N \<Longrightarrow> gen_state (m_producers (RngCache_new rng C distribution seed N) ! i) =
     (distribution, engine_seed rng (sub_seed rng seed i))"
  by (simp add: RngCache_new_producers gen_state_def Producer_new_def)

lemma cache_inv_constructed:
  "cache_inv rng C (RngCache_new rng C distribution seed N)
     (RngCache_new rng C distribution seed N) []"
proof -
  let ?c0 = "RngCache_new rng C distribution seed N"
  have len: "length (m_producers ?c0) = N" by (simp add: RngCache_new_producers)
  have "worker_ok rng C (gen_state (m_producers ?c0 ! i)) 0 (m_producers ?c0 ! i)"
    if "i < N" for i
    using that by (simp add: RngCache_new_producers worker_ok_def Producer_new_def Chunk_new_def)
  then have "workers_ok rng C ?c0 0 ?c0"
    by (simp add: workers_ok_def len) (simp add: RngCache_new_def)
  moreover have "log_ok rng C ?c0 []" by (simp add: log_ok_def contributed_def)
  moreover have "length (m_values (m_activeChunk ?c0)) = C \<and> m_nextIndex (m_activeChunk ?c0) = C"
    by (simp add: RngCache_new_def Chunk_new_def)
  ultimately have "boundary rng C ?c0 0 ?c0 []"
    by (simp add: boundary_def contributed_def)
  then show ?thesis by (simp add: cache_inv_def)
qed

lemma run_cache_inv:
  assumes r: "run rng (RngCache_new rng C distribution seed N) c out"
    and N: "0 < N" and C: "0 < C"
  shows "cache_inv rng C (RngCache_new rng C distribution seed N) c out"
  using r
proof (induction rule: run.induct)
  case constructed
  show ?case by (rule cache_inv_constructed)
next
  case (worker c out i p)
  from cache_inv_worker_step [OF worker.IH C worker.hyps(2,3)] show ?case .
next
  case (consumer c out v c1)
  have "0 < length (m_producers (RngCache_new rng C distribution seed N))"
    using N by (simp add: RngCache_new_producers)
  from cache_inv_consumer_step [OF consumer.IH this C consumer.hyps(2)] show ?case .
qed

lemma cache_inv_extend:
  assumes r: "run rng c0 c out" and inv: "cache_inv rng C c0 c out"
    and N: "0 < length (m_producers c0)" and C: "0 < C"
  shows "\<exists>c1 x. run rng c0 c1 (out @ [x])"
proof -
  from cache_inv_cases [OF inv] consider h where "boundary rng C c0 h c out"
    | g where "running rng C c0 g c out" "m_nextIndex (m_activeChunk c) < C"
    by blast
  then show ?thesis
  proof cases
    case 1
    let ?i = "h mod length (m_producers c0)"
    show ?thesis
    proof (cases "Chunk_full (m_chunk (m_producers c ! ?i))")
      case True
      from generate_swap [OF 1 N C True] obtain v c1
        where "RngCache_generate c = (Returned v, c1)" by blast
      from run.consumer [OF r this] show ?thesis by blast
    next
      case False
      from 1 have w: "workers_ok rng C c0 h c" by (simp add: boundary_def)
      then have lenp: "length (m_producers c) = length (m_producers c0)"
        and ok: "worker_ok rng C (gen_state (m_producers c0 ! ?i))
             (swaps (length (m_producers c0)) h ?i) (m_producers c ! ?i)"
        using N by (simp_all add: workers_ok_def)
      from run_iteration_enabled [OF ok False] obtain p
        where it: "run_iteration rng (m_producers c ! ?i) = (Returned True, p)" by blast
      have i: "?i < length (m_producers c)" using N lenp by simp
      let ?c = "c\<lparr>m_producers := (m_producers c)[?i := p]\<rparr>"
      have r1: "run rng c0 ?c out" by (rule run.worker [OF r i it])
      have b1: "boundary rng C c0 h ?c out" by (rule boundary_worker_step [OF 1 C i it])
      have "m_nextIndex (m_chunk p) = 0" by (rule run_iteration_fill(6) [OF it])
      then have "Chunk_full (m_chunk (m_producers ?c ! ?i))"
        using i by (simp add: Chunk_full_def)
      from generate_swap [OF b1 N C this] obtain v c1
        where "RngCache_generate ?c = (Returned v, c1)" by blast
      from run.consumer [OF r1 this] show ?thesis by blast
    qed
  next
    case 2
    from generate_pop [OF 2(1) N 2(2)] obtain v c1
      where "RngCache_generate c = (Returned v, c1)" by blast
    from run.consumer [OF r this] show ?thesis by blast
  qed
qed

lemma cache_inv_no_throw:
  assumes inv: "cache_inv rng C c0 c out"
    and N: "0 < length (m_producers c0)" and C: "0 < C"
  shows "fst (RngCache_generate c) \<noteq> Threw e"
proof -
  from cache_inv_cases [OF inv] consider h where "boundary rng C c0 h c out"
    | g where "running rng C c0 g c out" "m_nextIndex (m_activeChunk c) < C"
    by blast
  then show ?thesis
  proof cases
    case 1
    show ?thesis
    proof (cases "Chunk_full (m_chunk (m_producers c ! (h mod length (m_producers c0))))")
      case True
      from generate_swap [OF 1 N C True] show ?thesis by auto
    next
      case False
      from generate_waiting [OF 1 N False] show ?thesis by simp
    qed
  next
    case 2
    from generate_pop [OF 2(1) N 2(2)] show ?thesis by auto
  qed
qed

lemma exec_run:
  "run rng c0 c out \<Longrightarrow> exec rng as (c, out) = Some (c1, out1) \<Longrightarrow> run rng c0 c1 out1"
proof (induction as arbitrary: c out)
  case Nil
  then show ?case by simp
next
  case (Cons a as)
  show ?case
  proof (cases a)
    case (Fill i)
    with Cons.prems(2) obtain p where i: "i < length (m_producers c)"
      and it: "run_iteration rng (m_producers c ! i) = (Returned True, p)"
      and rest: "exec rng as (c\<lparr>m_producers := (m_producers c)[i := p]\<rparr>, out) = Some (c1, out1)"
      by (auto split: if_splits prod.splits status.splits bool.splits)
    from Cons.IH [OF run.worker [OF Cons.prems(1) i it] rest] show ?thesis .
  next
    case Call
    with Cons.prems(2) obtain v c2 where gen: "RngCache_generate c = (Returned v, c2)"
      and rest: "exec rng as (c2, out @ [(source c out, v)]) = Some (c1, out1)"
      by (auto split: prod.splits status.splits)
    from Cons.IH [OF run.consumer [OF Cons.prems(1) gen] rest] show ?thesis .
  qed
qed

lemma cache_inv_log_ok: "cache_inv rng C c0 c out \<Longrightarrow> log_ok rng C c0 out"
  by (auto simp: cache_inv_def boundary_def running_def)

lemma log_ok_prefix:
  assumes "log_ok rng C c0 out" and "n \<le> length out"
  shows "take n out = map (ideal rng C c0) [0..<n]"
  using assms by (simp add: list_eq_iff_nth_eq log_ok_def)

lemma exec_run_constructed:
  assumes "map_option snd (exec rng as (c0, [])) = Some out"
  shows "\<exists>c. run rng c0 c out"
proof -
  from assms obtain c where "exec rng as (c0, []) = Some (c, out)" by auto
  from exec_run [OF run.constructed this] show ?thesis by blast
qed

section \<open>The running system: order, attribution, determinism\<close>

text \<open>
  C1.  With at least one worker and a chunk size of at least one, in every
  interleaving of the worker threads with the consumer, call number \<open>k + 1\<close> of
  \<open>generate()\<close> returns value number \<open>k mod C\<close> of chunk number \<open>(k div C) div N\<close> of
  the stream of Worker \<open>(k div C) mod N\<close>, read from a chunk handed over by that
  Worker: the consumed sequence is the workers' \<open>C\<close>-sized chunks in round-robin order.
  No call throws or leaves defined behaviour, and every run can be continued so that
  one more call returns.
\<close>

theorem round_robin_chunks:
  assumes "0 < N" and "0 < C"
    and "run rng (RngCache_new rng C distribution seed N) c out"
  shows "(\<forall>k < length out.
            out ! k = ((k div C) mod N,
                       worker_stream rng (RngCache_new rng C distribution seed N)
                         ((k div C) mod N) ((k div C) div N * C + k mod C)))
       \<and> (\<forall>e. fst (RngCache_generate c) \<noteq> Threw e)
       \<and> (\<exists>c1 x. run rng (RngCache_new rng C distribution seed N) c1 (out @ [x]))"
proof -
  let ?c0 = "RngCache_new rng C distribution seed N"
  have len: "length (m_producers ?c0) = N" by (simp add: RngCache_new_producers)
  have inv: "cache_inv rng C ?c0 c out" by (rule run_cache_inv [OF assms(3,1,2)])
  from cache_inv_log_ok [OF inv]
  have "\<forall>k < length out. out ! k = ideal rng C ?c0 k" by (simp add: log_ok_def)
  then have a: "\<forall>k < length out.
            out ! k = ((k div C) mod N,
                       worker_stream rng ?c0 ((k div C) mod N) ((k div C) div N * C + k mod C))"
    by (simp add: ideal_def len)
  have N: "0 < length (m_producers ?c0)" using assms(1) len by simp
  have b: "\<forall>e. fst (RngCache_generate c) \<noteq> Threw e"
    using cache_inv_no_throw [OF inv N assms(2)] by blast
  from a b cache_inv_extend [OF assms(3) inv N assms(2)] show ?thesis by blast
qed

text \<open>
  Witness: the scenario of two workers and chunks of four.  Calls 1 to 4 return
  Worker 0's 10, 11, 12, 13, calls 5 to 8 Worker 1's 20, 21, 22, 23, and call 9
  returns 14, the first value of Worker 0's second chunk.
\<close>

theorem round_robin_chunks_witness:
  "(\<exists>c. run toy (RngCache_new toy 4 () 1 2) c
       [(0, 10), (0, 11), (0, 12), (0, 13), (1, 20), (1, 21), (1, 22), (1, 23), (0, 14)])
   \<and> [(0, 10), (0, 11), (0, 12), (0, 13), (1, 20), (1, 21), (1, 22), (1, 23),
       (0 :: nat, 14 :: 64 word)] ! 8
       = ((8 div 4) mod 2,
          worker_stream toy (RngCache_new toy 4 () 1 2) ((8 div 4) mod 2)
            ((8 div 4) div 2 * 4 + 8 mod 4))"
proof -
  let ?out = "[(0, 10), (0, 11), (0, 12), (0, 13), (1, 20), (1, 21), (1, 22), (1, 23),
               (0::nat, 14 :: 64 word)]"
  have "map_option snd
      (exec toy [Fill 0, Fill 1, Call, Call, Call, Call, Call, Call, Call, Call, Fill 0, Call]
         (RngCache_new toy 4 () 1 2, [])) = Some ?out"
    by code_simp
  from exec_run_constructed [OF this]
  obtain c where r: "run toy (RngCache_new toy 4 () 1 2) c ?out" by blast
  have N: "0 < (2::nat)" and C: "0 < (4::nat)" by simp_all
  note call = round_robin_chunks [OF N C r, THEN conjunct1, THEN spec, THEN mp]
  have "?out ! 8 = ((8 div 4) mod 2,
          worker_stream toy (RngCache_new toy 4 () 1 2) ((8 div 4) mod 2)
            ((8 div 4) div 2 * 4 + 8 mod 4))"
    by (rule call) simp
  with r show ?thesis by blast
qed

text \<open>
  C2.  In every interleaving, the values read from chunks handed over by Worker \<open>i\<close>,
  in the order the calls returned them, are the results of the first so many
  evaluations of \<open>distribution(engine)\<close>, one after the other, starting from the
  distribution as given and an engine seeded with sub-seed \<open>i\<close>: a prefix of that
  sequence, nothing skipped and nothing repeated.
\<close>

theorem worker_contribution:
  assumes "0 < N" and "0 < C"
    and "run rng (RngCache_new rng C distribution seed N) c out"
    and "i < N"
  shows "contributed i out =
     calls (draw rng) (length (contributed i out))
       (distribution, engine_seed rng (sub_seed rng seed i))"
proof -
  let ?c0 = "RngCache_new rng C distribution seed N"
  have len: "length (m_producers ?c0) = N" by (simp add: RngCache_new_producers)
  have "log_ok rng C ?c0 out"
    by (rule cache_inv_log_ok [OF run_cache_inv [OF assms(3,1,2)]])
  with assms(4) len have "contributed i out =
     calls (draw rng) (length (contributed i out)) (gen_state (m_producers ?c0 ! i))"
    by (simp add: log_ok_def)
  then show ?thesis by (simp only: RngCache_new_gen_state [OF assms(4)])
qed

theorem worker_contribution_witness:
  "(\<exists>c. run toy (RngCache_new toy 4 () 1 2) c
       [(0, 10), (0, 11), (0, 12), (0, 13), (1, 20), (1, 21), (1, 22), (1, 23), (0, 14)])
   \<and> contributed 0
        [(0, 10), (0, 11), (0, 12), (0, 13), (1, 20), (1, 21), (1, 22), (1, 23), (0 :: nat, 14 :: 64 word)]
       = [10, 11, 12, 13, 14]
   \<and> contributed 0
        [(0, 10), (0, 11), (0, 12), (0, 13), (1, 20), (1, 21), (1, 22), (1, 23), (0 :: nat, 14 :: 64 word)]
       = calls (draw toy)
           (length (contributed 0
              [(0, 10), (0, 11), (0, 12), (0, 13), (1, 20), (1, 21), (1, 22), (1, 23),
               (0 :: nat, 14 :: 64 word)]))
           ((), engine_seed toy (sub_seed toy 1 0))"
proof -
  let ?out = "[(0, 10), (0, 11), (0, 12), (0, 13), (1, 20), (1, 21), (1, 22), (1, 23),
               (0::nat, 14 :: 64 word)]"
  have "map_option snd
      (exec toy [Fill 0, Fill 1, Call, Call, Call, Call, Call, Call, Call, Call, Fill 0, Call]
         (RngCache_new toy 4 () 1 2, [])) = Some ?out"
    by code_simp
  from exec_run_constructed [OF this]
  obtain c where r: "run toy (RngCache_new toy 4 () 1 2) c ?out" by blast
  have N: "0 < (2::nat)" and C: "0 < (4::nat)" and i: "(0::nat) < 2" by simp_all
  have con: "contributed 0 ?out = [10, 11, 12, 13, 14]" by (simp add: contributed_def)
  from worker_contribution [OF N C r i] r con show ?thesis by blast
qed

text \<open>
  C3.  Two caches constructed from the same seed, worker count, distribution and
  chunk size return the same values, call for call, however the threads of either are
  scheduled: of any two runs, the first \<open>n\<close> returned values agree for every \<open>n\<close> both
  runs have reached.
\<close>

theorem deterministic_output:
  assumes "0 < N" and "0 < C"
    and "run rng (RngCache_new rng C distribution seed N) c1 out1"
    and "run rng (RngCache_new rng C distribution seed N) c2 out2"
    and "n \<le> length out1" and "n \<le> length out2"
  shows "take n (map snd out1) = take n (map snd out2)"
proof -
  let ?c0 = "RngCache_new rng C distribution seed N"
  have "take n out1 = map (ideal rng C ?c0) [0..<n]"
    by (rule log_ok_prefix [OF cache_inv_log_ok [OF run_cache_inv [OF assms(3,1,2)]] assms(5)])
  moreover have "take n out2 = map (ideal rng C ?c0) [0..<n]"
    by (rule log_ok_prefix [OF cache_inv_log_ok [OF run_cache_inv [OF assms(4,1,2)]] assms(6)])
  ultimately have "take n out1 = take n out2" by simp
  then show ?thesis by (simp add: take_map)
qed

text \<open>
  Witness: two schedules of the same cache.  In the first both workers fill before
  the consumer starts; in the second Worker 1 fills first and Worker 0 refills as soon
  as its first chunk is handed over.
\<close>

theorem deterministic_output_witness:
  "(\<exists>c. run toy (RngCache_new toy 4 () 1 2) c
       [(0, 10), (0, 11), (0, 12), (0, 13), (1, 20)])
   \<and> (\<exists>c. run toy (RngCache_new toy 4 () 1 2) c
       [(0, 10), (0, 11), (0, 12), (0, 13), (1, 20), (1, 21)])
   \<and> take 5 (map snd [(0, 10), (0, 11), (0, 12), (0, 13), (1::nat, 20 :: 64 word)])
       = take 5 (map snd [(0, 10), (0, 11), (0, 12), (0, 13), (1, 20), (1::nat, 21 :: 64 word)])"
proof -
  let ?out1 = "[(0, 10), (0, 11), (0, 12), (0, 13), (1::nat, 20 :: 64 word)]"
  let ?out2 = "[(0, 10), (0, 11), (0, 12), (0, 13), (1, 20), (1::nat, 21 :: 64 word)]"
  have "map_option snd
      (exec toy [Fill 0, Fill 1, Call, Call, Call, Call, Call]
         (RngCache_new toy 4 () 1 2, [])) = Some ?out1"
    by code_simp
  from exec_run_constructed [OF this]
  obtain c1 where r1: "run toy (RngCache_new toy 4 () 1 2) c1 ?out1" by blast
  have "map_option snd
      (exec toy [Fill 1, Fill 0, Call, Fill 0, Call, Call, Call, Call, Call]
         (RngCache_new toy 4 () 1 2, [])) = Some ?out2"
    by code_simp
  from exec_run_constructed [OF this]
  obtain c2 where r2: "run toy (RngCache_new toy 4 () 1 2) c2 ?out2" by blast
  have N: "0 < (2::nat)" and C: "0 < (4::nat)" by simp_all
  have n1: "5 \<le> length ?out1" and n2: "5 \<le> length ?out2" by simp_all
  from deterministic_output [OF N C r1 r2 n1 n2] r1 r2 show ?thesis by blast
qed

end
